theory Spec2Isabelle
  imports Main "HOL-Library.Word" "HOL-Library.Char_ord" "HOL-Library.List_Lexorder"
    "HOL-Library.Multiset" "HOL-Library.Sublist"
begin

section \<open>Go values used by the crawler\<close>

text \<open>
  A Go \<open>string\<close> is a sequence of bytes; it is modelled as \<open>string\<close> (a list of 8-bit
  \<open>char\<close>s), so a code point beyond ASCII is the several bytes of its UTF-8 encoding.
  Go's \<open>int\<close> is modelled as \<open>int\<close> where no claim depends on its width and as
  \<open>64 word\<close> where one does (the backoff computation).
\<close>

subsection \<open>fmt: decimal rendering of \<open>%d\<close>\<close>

fun digit_char :: "nat \<Rightarrow> char" where
  "digit_char n = char_of (48 + n mod 10)"

fun fmt_nat :: "nat \<Rightarrow> string" where
  "fmt_nat n = (if n < 10 then [digit_char n] else fmt_nat (n div 10) @ [digit_char n])"

declare fmt_nat.simps [simp del]

definition fmt_d :: "int \<Rightarrow> string" where
  "fmt_d i = (if i < 0 then CHR ''-'' # fmt_nat (nat (- i)) else fmt_nat (nat i))"


subsection \<open>Bytes\<close>

definition is_ascii :: "char \<Rightarrow> bool" where
  \<comment> \<open>\<open>c < utf8.RuneSelf\<close>\<close>
  "is_ascii c = ((of_char c :: nat) < 128)"

definition ascii_lower :: "char \<Rightarrow> char" where
  \<comment> \<open>\<open>if 'A' <= c && c <= 'Z' { c += 'a' - 'A' }\<close>\<close>
  "ascii_lower c =
     (if CHR ''A'' \<le> c \<and> c \<le> CHR ''Z'' then char_of (of_char c + (32::nat)) else c)"

definition ascii_upper :: "char \<Rightarrow> char" where
  \<comment> \<open>\<open>if 'a' <= c && c <= 'z' { c -= 'a' - 'A' }\<close>\<close>
  "ascii_upper c =
     (if CHR ''a'' \<le> c \<and> c \<le> CHR ''z'' then char_of (of_char c - (32::nat)) else c)"

text \<open>
  The parts of Go's \<open>unicode\<close> tables that the code can reach on bytes beyond ASCII.
  They are data of the standard library and stay parameters of the model:
  \<^item> \<open>lower_map s\<close> is \<open>strings.Map(unicode.ToLower, s)\<close>, which \<open>strings.ToLower\<close>
    runs when \<open>s\<close> has a byte \<open>\<ge> 0x80\<close>;
  \<^item> \<open>upper_rune b\<close> is \<open>string(unicode.ToUpper(rune(b)))\<close> for a byte \<open>b \<ge> 0x80\<close>;
  \<^item> \<open>fold_eq s t\<close> is the general loop of \<open>strings.EqualFold\<close>, entered at the first
    position where either string has a byte \<open>\<ge> 0x80\<close>.
\<close>

record unicode =
  lower_map :: "string \<Rightarrow> string"
  upper_rune :: "char \<Rightarrow> string"
  fold_eq :: "string \<Rightarrow> string \<Rightarrow> bool"

subsection \<open>Package \<open>strings\<close>\<close>

text \<open>
  \<open>strings.ReplaceAll(s, old, new)\<close> for a non-empty \<open>old\<close>, which is what every call
  of the source passes: the non-overlapping occurrences of \<open>old\<close>, leftmost first.
  (With an empty \<open>old\<close> Go inserts \<open>new\<close> around every rune; here \<open>s\<close> is returned.)
\<close>

function strings_ReplaceAll :: "string \<Rightarrow> string \<Rightarrow> string \<Rightarrow> string" where
  "strings_ReplaceAll [] old new = []"
| "strings_ReplaceAll (c # s) old new =
     (if old \<noteq> [] \<and> prefix old (c # s)
      then new @ strings_ReplaceAll (drop (length old) (c # s)) old new
      else c # strings_ReplaceAll s old new)"
  by pat_completeness auto
termination
  by (relation "measure (\<lambda>(s, old, new). length s)") (auto simp: neq_Nil_conv)

fun strings_Contains :: "string \<Rightarrow> string \<Rightarrow> bool" where
  "strings_Contains [] sub = (sub = [])"
| "strings_Contains (c # s) sub = (prefix sub (c # s) \<or> strings_Contains s sub)"


definition strings_Trim :: "string \<Rightarrow> string \<Rightarrow> string" where
  \<comment> \<open>\<open>strings.Trim(s, cutset)\<close> for a cutset of ASCII bytes\<close>
  "strings_Trim s cutset =
     rev (dropWhile (\<lambda>c. c \<in> set cutset) (rev (dropWhile (\<lambda>c. c \<in> set cutset) s)))"

definition strings_ToLower :: "unicode \<Rightarrow> string \<Rightarrow> string" where
  \<comment> \<open>the ASCII fast path of the library, else the Unicode mapping\<close>
  "strings_ToLower U s = (if list_all is_ascii s then map ascii_lower s else lower_map U s)"


fun strings_Join :: "string list \<Rightarrow> string \<Rightarrow> string" where
  "strings_Join [] sep = []"
| "strings_Join [x] sep = x"
| "strings_Join (x # y # xs) sep = x @ sep @ strings_Join (y # xs) sep"

text \<open>
  \<open>strings.Split(s, sep)\<close> for a one-byte separator: the pieces between the occurrences
  of \<open>sep\<close>, so the result has one more element than \<open>s\<close> has separators.
\<close>

fun split_byte :: "string \<Rightarrow> char \<Rightarrow> string \<Rightarrow> string list" where
  "split_byte cur sep [] = [cur]"
| "split_byte cur sep (c # s) =
     (if c = sep then cur # split_byte [] sep s else split_byte (cur @ [c]) sep s)"

definition strings_Split :: "string \<Rightarrow> char \<Rightarrow> string list" where
  "strings_Split s sep = split_byte [] sep s"

text \<open>
  White space. \<open>strings.Fields\<close> and \<open>strings.TrimSpace\<close> split and trim on the runes
  for which \<open>unicode.IsSpace\<close> holds: tab, line feed, vertical tab, form feed, carriage
  return, space, U+0085, U+00A0, U+1680, U+2000 to U+200A, U+2028, U+2029, U+202F, U+205F
  and U+3000. The list below holds their UTF-8 encodings. Every encoding starts with a
  byte that cannot continue another rune, and Go's decoder steps one byte over malformed
  input, so the white-space runes of a Go string are exactly the places where one of these
  byte sequences occurs.
\<close>

definition space_encodings :: "string list" where
  "space_encodings =
     [[CHR 0x09], [CHR 0x0A], [CHR 0x0B], [CHR 0x0C], [CHR 0x0D], [CHR 0x20],
      [CHR 0xC2, CHR 0x85], [CHR 0xC2, CHR 0xA0],
      [CHR 0xE1, CHR 0x9A, CHR 0x80],
      [CHR 0xE2, CHR 0x80, CHR 0x80], [CHR 0xE2, CHR 0x80, CHR 0x81],
      [CHR 0xE2, CHR 0x80, CHR 0x82], [CHR 0xE2, CHR 0x80, CHR 0x83],
      [CHR 0xE2, CHR 0x80, CHR 0x84], [CHR 0xE2, CHR 0x80, CHR 0x85],
      [CHR 0xE2, CHR 0x80, CHR 0x86], [CHR 0xE2, CHR 0x80, CHR 0x87],
      [CHR 0xE2, CHR 0x80, CHR 0x88], [CHR 0xE2, CHR 0x80, CHR 0x89],
      [CHR 0xE2, CHR 0x80, CHR 0x8A],
      [CHR 0xE2, CHR 0x80, CHR 0xA8], [CHR 0xE2, CHR 0x80, CHR 0xA9],
      [CHR 0xE2, CHR 0x80, CHR 0xAF], [CHR 0xE2, CHR 0x81, CHR 0x9F],
      [CHR 0xE3, CHR 0x80, CHR 0x80]]"

text \<open>The number of bytes of the token of \<open>ts\<close> that \<open>s\<close> starts with; 0 when there is none.\<close>

definition leading_len :: "string list \<Rightarrow> string \<Rightarrow> nat" where
  "leading_len ts s = (case filter (\<lambda>t. prefix t s) ts of [] \<Rightarrow> 0 | t # _ \<Rightarrow> length t)"

text \<open>
  \<open>strings.Fields\<close>: \<open>k\<close> counts the bytes of a white-space rune still to be skipped, \<open>cur\<close>
  is the field being collected.
\<close>

definition emit :: "string \<Rightarrow> string list" where
  "emit cur = (if cur = [] then [] else [cur])"

fun fields_go :: "nat \<Rightarrow> string \<Rightarrow> string \<Rightarrow> string list" where
  "fields_go k cur [] = emit cur"
| "fields_go (Suc k) cur (c # s) = fields_go k cur s"
| "fields_go 0 cur (c # s) =
     (case leading_len space_encodings (c # s) of
        0 \<Rightarrow> fields_go 0 (cur @ [c]) s
      | Suc k \<Rightarrow> emit cur @ fields_go k [] s)"

definition strings_Fields :: "string \<Rightarrow> string list" where
  "strings_Fields s = fields_go 0 [] s"




section \<open>internal/aggregator\<close>

text \<open>The fields of \<open>config.Config\<close> that the aggregator reads.\<close>

record Config =
  Name :: string
  BaseURL :: string
  OutputFile :: string
  IncludeMetadata :: bool
  GenerateTOC :: bool
  MaxDepth :: int

text \<open>\<open>type Page struct\<close>; \<open>Timestamp\<close> is the reading of \<open>time.Now()\<close>, kept abstract.\<close>

record Page =
  URL :: string
  Title :: string
  Content :: string
  Depth :: int
  Timestamp :: nat

text \<open>
  \<open>type Aggregator struct\<close>. The mutex serialises \<open>AddPage\<close>, so a run is a sequence of
  calls. \<open>contentHashes\<close> is a Go \<open>map[string]bool\<close>: reading an absent key gives \<open>false\<close>.
  \<open>stdout\<close> collects what \<open>fmt.Printf\<close> writes.
\<close>

record Aggregator =
  config :: Config
  pages :: "Page list"
  contentHashes :: "string \<rightharpoonup> bool"
  stdout :: "string list"

definition MaxPagesInMemory :: nat where
  "MaxPagesInMemory = 1000"

definition map_index :: "(string \<rightharpoonup> bool) \<Rightarrow> string \<Rightarrow> bool" where
  "map_index m k = (case m k of None \<Rightarrow> False | Some b \<Rightarrow> b)"

definition New :: "Config \<Rightarrow> Aggregator" where
  "New cfg = \<lparr>config = cfg, pages = [], contentHashes = Map.empty, stdout = []\<rparr>"

text \<open>
  \<open>AddPage\<close>. The parameter \<open>sha\<close> stands for
  \<open>fmt.Sprintf("%x", sha256.Sum256([]byte(content)))\<close> (the hex digest, computed by the
  standard library) and \<open>now\<close> for the reading of \<open>time.Now()\<close>.
\<close>

definition AddPage ::
  "(string \<Rightarrow> string) \<Rightarrow> nat \<Rightarrow> Aggregator \<Rightarrow> string \<Rightarrow> string \<Rightarrow> string \<Rightarrow> int \<Rightarrow> Aggregator" where
  "AddPage sha now a url title content depth =
     (let contentHash = sha content in
      if map_index (contentHashes a) contentHash then a
      else
        let a1 = (if length (pages a) \<ge> MaxPagesInMemory
                  then a\<lparr>stdout := stdout a @
                         [''Warning: Approaching memory limit with '' @
                          fmt_d (int (length (pages a))) @ '' pages'' @ [CHR 0x0A]]\<rparr>
                  else a);
            page = \<lparr>URL = url, Title = title, Content = content, Depth = depth,
                    Timestamp = now\<rparr>
        in a1\<lparr>pages := pages a1 @ [page],
              contentHashes := (contentHashes a1)(contentHash \<mapsto> True)\<rparr>)"

subsection \<open>Ordering and rendering\<close>








text \<open>The characters that \<open>createAnchor\<close> deletes, in the order of its \<open>ReplaceAll\<close> calls.\<close>

definition anchor_removed :: "string" where
  "anchor_removed =
     [CHR ''.'', CHR ''('', CHR '')'', CHR ''/'', CHR 0x5C, CHR '':'', CHR '';'', CHR ''?'',
      CHR ''!'', CHR ''@'', CHR ''#'', CHR ''$'', CHR ''%'', CHR ''^'', CHR ''&'', CHR ''*'',
      CHR ''+'', CHR ''='', CHR ''['', CHR '']'', CHR ''{'', CHR ''}'', CHR ''|'', CHR 0x22,
      CHR 0x27, CHR ''<'', CHR ''>'', CHR '','']"

lemma ReplaceAll_dashes_shorter:
  "strings_Contains s ''--'' \<Longrightarrow> length (strings_ReplaceAll s ''--'' ''-'') < length s"
proof (induction s "''--''" "''-''" rule: strings_ReplaceAll.induct)
  case 1
  then show ?case by simp
next
  case (2 c s)
  have le: "length (strings_ReplaceAll t ''--'' ''-'') \<le> length t" for t
    by (induction t "''--''" "''-''" rule: strings_ReplaceAll.induct) (auto simp: le_Suc_eq)
  show ?case
  proof (cases "prefix ''--'' (c # s)")
    case True
    then obtain r where "c # s = ''--'' @ r" by (auto simp: prefix_def)
    then have "s = CHR ''-'' # r" "c = CHR ''-''" by auto
    then show ?thesis using le [of r] by simp
  next
    case False
    with 2 show ?thesis by auto
  qed
qed

text \<open>The loop \<open>for strings.Contains(anchor, "--") { anchor = ReplaceAll(anchor, "--", "-") }\<close>.\<close>

function collapse_dashes :: "string \<Rightarrow> string" where
  "collapse_dashes anchor =
     (if strings_Contains anchor ''--''
      then collapse_dashes (strings_ReplaceAll anchor ''--'' ''-'') else anchor)"
  by pat_completeness auto
termination
  by (relation "measure length") (auto simp: ReplaceAll_dashes_shorter)

declare collapse_dashes.simps [simp del]

definition createAnchor :: "unicode \<Rightarrow> string \<Rightarrow> string" where
  "createAnchor U title =
     (let anchor = strings_ToLower U title;
          anchor = strings_ReplaceAll anchor '' '' ''-'';
          anchor = foldl (\<lambda>a c. strings_ReplaceAll a [c] []) anchor anchor_removed;
          anchor = collapse_dashes anchor
      in strings_Trim anchor ''-'')"




definition titleCase :: "unicode \<Rightarrow> string \<Rightarrow> string" where
  \<comment> \<open>\<open>string(unicode.ToUpper(rune(word[0]))) + strings.ToLower(word[1:])\<close> on every field\<close>
  "titleCase U s =
     strings_Join
       (map (\<lambda>word. case word of
                [] \<Rightarrow> []
              | b # rest \<Rightarrow> (if is_ascii b then [ascii_upper b] else upper_rune U b) @
                            strings_ToLower U rest)
            (strings_Fields s))
       '' ''"

definition extractTitleFromURL :: "unicode \<Rightarrow> string \<Rightarrow> string" where
  "extractTitleFromURL U url =
     (let parts = strings_Split url CHR ''/'' in
      if length parts > 0 then
        let lastPart = parts ! (length parts - 1);
            lastPart = (if lastPart = [] \<and> length parts > 1
                        then parts ! (length parts - 2) else lastPart)
        in if lastPart \<noteq> [] then
             titleCase U (strings_ReplaceAll (strings_ReplaceAll lastPart ''-'' '' '') ''_'' '' '')
           else ''Untitled''
      else ''Untitled'')"







text \<open>One recorded call of \<open>AddPage\<close>: url, title, content, depth and the clock reading.\<close>

type_synonym add_call = "string \<times> string \<times> string \<times> int \<times> nat"

definition call_hash :: "(string \<Rightarrow> string) \<Rightarrow> add_call \<Rightarrow> string" where
  "call_hash sha c = (case c of (url, title, content, depth, now) \<Rightarrow> sha content)"

definition add_call :: "(string \<Rightarrow> string) \<Rightarrow> Aggregator \<Rightarrow> add_call \<Rightarrow> Aggregator" where
  "add_call sha a c = (case c of (url, title, content, depth, now) \<Rightarrow>
     AddPage sha now a url title content depth)"

definition add_calls :: "(string \<Rightarrow> string) \<Rightarrow> Config \<Rightarrow> add_call list \<Rightarrow> Aggregator" where
  "add_calls sha cfg cs = foldl (add_call sha) (New cfg) cs"

section \<open>Package \<open>regexp\<close>\<close>

text \<open>
  The regular expressions of the source, as syntax trees, with the matching rule of Go's
  \<open>regexp\<close>: the match starts as far left as possible, and among the matches starting
  there it is the one a backtracking search finds first. The trees cover what the patterns
  of the source use. Matching works on bytes. That agrees with Go's matching on runes for
  these patterns, since what follows a \<open>.*\<close> or \<open>.*?\<close> in them starts with an ASCII
  character, which never lies inside a longer rune.
\<close>

datatype atom =
    Byte char    \<comment> \<open>this byte\<close>
  | Fold char    \<comment> \<open>an ASCII letter under \<open>(?i)\<close>\<close>
  | WhiteSpace   \<comment> \<open>\<open>\s\<close>, which is \<open>[\t\n\f\r ]\<close>\<close>
  | Dot          \<comment> \<open>\<open>.\<close>: anything but a line feed\<close>
  | OneOf string \<comment> \<open>a character class of ASCII characters\<close>

datatype rx =
    Sym atom
  | Star atom      \<comment> \<open>\<open>x*\<close>, greedy\<close>
  | LazyStar atom  \<comment> \<open>\<open>x*?\<close>\<close>
  | EndText        \<comment> \<open>\<open>$\<close> without the flag \<open>m\<close>\<close>
  | Epsilon
  | Cat rx rx
  | Either rx rx   \<comment> \<open>\<open>x|y\<close>, \<open>x\<close> preferred\<close>

text \<open>
  Under \<open>(?i)\<close> a letter matches both of its cases, and Go folds by Unicode's simple case
  folding: \<open>k\<close> also matches the Kelvin sign U+212A and \<open>s\<close> the long s U+017F.
\<close>

definition fold_extra :: "char \<Rightarrow> string list" where
  "fold_extra c =
     (if ascii_lower c = CHR ''k'' then [[CHR 0xE2, CHR 0x84, CHR 0xAA]]
      else if ascii_lower c = CHR ''s'' then [[CHR 0xC5, CHR 0xBF]] else [])"

text \<open>The rest of \<open>s\<close> behind one occurrence of the atom at its start, if there is one.\<close>

fun atom_match :: "atom \<Rightarrow> string \<Rightarrow> string option" where
  "atom_match a [] = None"
| "atom_match (Byte c) (x # s) = (if x = c then Some s else None)"
| "atom_match (Fold c) (x # s) =
     (if ascii_lower x = ascii_lower c then Some s
      else case leading_len (fold_extra c) (x # s) of 0 \<Rightarrow> None | Suc n \<Rightarrow> Some (drop n s))"
| "atom_match WhiteSpace (x # s) =
     (if x \<in> set [CHR 0x09, CHR 0x0A, CHR 0x0C, CHR 0x0D, CHR 0x20] then Some s else None)"
| "atom_match Dot (x # s) = (if x \<noteq> CHR 0x0A then Some s else None)"
| "atom_match (OneOf cs) (x # s) = (if x \<in> set cs then Some s else None)"

lemma atom_match_shorter: "atom_match a s = Some r \<Longrightarrow> length r < length s"
  by (cases a; cases s) (auto split: if_splits nat.splits)

text \<open>What is left of \<open>s\<close> after 0, 1, 2, ... occurrences of the atom.\<close>

function runs :: "atom \<Rightarrow> string \<Rightarrow> string list" where
  "runs a s = s # (case atom_match a s of None \<Rightarrow> [] | Some r \<Rightarrow> runs a r)"
  by pat_completeness auto
termination
  by (relation "measure (\<lambda>(a, s). length s)") (auto simp: atom_match_shorter)

declare runs.simps [simp del]

text \<open>
  \<open>ends r s\<close>: for every way \<open>r\<close> matches at the start of \<open>s\<close>, what is left of \<open>s\<close> behind
  the match, in the order in which a backtracking search tries them.
\<close>

fun ends :: "rx \<Rightarrow> string \<Rightarrow> string list" where
  "ends (Sym a) s = (case atom_match a s of None \<Rightarrow> [] | Some r \<Rightarrow> [r])"
| "ends (Star a) s = rev (runs a s)"
| "ends (LazyStar a) s = runs a s"
| "ends EndText s = (if s = [] then [s] else [])"
| "ends Epsilon s = [s]"
| "ends (Cat r1 r2) s = concat (map (ends r2) (ends r1 s))"
| "ends (Either r1 r2) s = ends r1 s @ ends r2 s"

text \<open>
  The leftmost match: the text skipped before it (collected in \<open>pre\<close>) and the text
  behind it.
\<close>

fun find_match :: "rx \<Rightarrow> string \<Rightarrow> string \<Rightarrow> (string \<times> string) option" where
  "find_match r pre [] = (case ends r [] of [] \<Rightarrow> None | e # _ \<Rightarrow> Some (pre, e))"
| "find_match r pre (c # s) =
     (case ends r (c # s) of [] \<Rightarrow> find_match r (pre @ [c]) s | e # _ \<Rightarrow> Some (pre, e))"

definition MatchString :: "rx \<Rightarrow> string \<Rightarrow> bool" where
  "MatchString re s = (find_match re [] s \<noteq> None)"

text \<open>
  \<open>re.ReplaceAllString(src, "")\<close>: every match is cut out, the search going on behind it.
  Every pattern of the source holds a literal, so its matches are never empty and the last
  branch is not reached (\<open>ReplaceAllString_cut\<close> below).
\<close>

function ReplaceAllString :: "rx \<Rightarrow> string \<Rightarrow> string" where
  "ReplaceAllString re src =
     (case find_match re [] src of
        None \<Rightarrow> src
      | Some (pre, rest) \<Rightarrow>
          if length rest < length src then pre @ ReplaceAllString re rest else src)"
  by pat_completeness auto
termination
  by (relation "measure (\<lambda>(re, src). length src)") auto

declare ReplaceAllString.simps [simp del]

text \<open>Building the trees: a literal under \<open>(?i)\<close>, and a sequence.\<close>

definition is_letter :: "char \<Rightarrow> bool" where
  "is_letter c = ((CHR ''a'' \<le> c \<and> c \<le> CHR ''z'') \<or> (CHR ''A'' \<le> c \<and> c \<le> CHR ''Z''))"

definition is_digit :: "char \<Rightarrow> bool" where
  "is_digit c = (CHR ''0'' \<le> c \<and> c \<le> CHR ''9'')"

definition lit :: "string \<Rightarrow> rx" where
  "lit s = foldr (\<lambda>c r. Cat (Sym (if is_letter c then Fold c else Byte c)) r) s Epsilon"

definition cat :: "rx list \<Rightarrow> rx" where
  "cat rs = foldr Cat rs Epsilon"

section \<open>internal/scraper\<close>

subsection \<open>Link filter\<close>

definition skipPatterns :: "string list" where
  "skipPatterns =
     [''privacy'', ''terms'', ''legal'', ''cookies'', ''gdpr'',
      ''about'', ''contact'', ''support'', ''careers'', ''jobs'',
      ''blog(?!/)'', ''news'', ''press'', ''media'',
      ''pricing'', ''enterprise'', ''commercial'', ''sales'',
      ''login'', ''signup'', ''register'', ''account'', ''profile'',
      ''404'', ''error'', ''maintenance'', ''status'']"

text \<open>
  Compiling \<open>"(?i)/(" + pattern + ")($|[/?#])"\<close> for the entries of \<open>skipPatterns\<close>. An entry
  of letters and digits gives the tree below. The one other entry, \<open>blog(?!/)\<close>, holds
  a look-ahead group \<open>(?!\<close>, which the syntax of Go's \<open>regexp\<close> does not have: compiling
  fails with "invalid or unsupported Perl syntax", here \<open>None\<close>.
\<close>

definition compile_skip :: "string \<Rightarrow> rx option" where
  "compile_skip pattern =
     (if list_all (\<lambda>c. is_letter c \<or> is_digit c) pattern
      then Some (cat [lit ''/'', lit pattern, Either EndText (Sym (OneOf ''/?#''))])
      else None)"

text \<open>
  \<open>regexp.MatchString\<close> returns \<open>false\<close> together with the error when the pattern does not
  compile; \<open>isPrivacyOrLegalURL\<close> drops the error (\<open>matched, _ :=\<close>).
\<close>

definition regexp_MatchString :: "string \<Rightarrow> string \<Rightarrow> bool" where
  "regexp_MatchString pattern s =
     (case compile_skip pattern of None \<Rightarrow> False | Some re \<Rightarrow> MatchString re s)"

definition isPrivacyOrLegalURL :: "string \<Rightarrow> bool" where
  "isPrivacyOrLegalURL urlStr = list_ex (\<lambda>pattern. regexp_MatchString pattern urlStr) skipPatterns"

text \<open>
  \<open>shouldFollow\<close>. The follow and ignore patterns come from the configuration; a compiled
  pattern is modelled by its \<open>MatchString\<close>.
\<close>

definition shouldFollow :: "(string \<Rightarrow> bool) list \<Rightarrow> (string \<Rightarrow> bool) list \<Rightarrow> string \<Rightarrow> bool" where
  "shouldFollow ignorePatterns followPatterns urlStr =
     (if isPrivacyOrLegalURL urlStr then False
      else if length ignorePatterns > 0 \<and> list_ex (\<lambda>re. re urlStr) ignorePatterns then False
      else if length followPatterns > 0 then list_ex (\<lambda>re. re urlStr) followPatterns
      else True)"




subsection \<open>Title cleanup\<close>

text \<open>
  \<open>statusPatterns\<close>, each compiled with \<open>(?i)\<close>:
  \<^item> \<open>\s*This feature is available in the latest.*?React\s*\<close>
  \<^item> \<open>\s*This feature is available in the latest Canary\s*\<close>
  \<^item> \<open>\s*This feature is available in the latest Experimental version of React\s*\<close>
\<close>

definition statusPatterns :: "rx list" where
  "statusPatterns =
     [cat [Star WhiteSpace, lit ''This feature is available in the latest'', LazyStar Dot,
           lit ''React'', Star WhiteSpace],
      cat [Star WhiteSpace, lit ''This feature is available in the latest Canary'',
           Star WhiteSpace],
      cat [Star WhiteSpace,
           lit ''This feature is available in the latest Experimental version of React'',
           Star WhiteSpace]]"

text \<open>
  \<open>brandingPatterns\<close>, each compiled with \<open>(?i)\<close>: \<open>\s*\<close>\<^emph>\<open>sep\<close>\<open>\s*\<close>\<^emph>\<open>name\<close>\<open>\s*$\<close> for the
  separators en dash (U+2013, three bytes in UTF-8), \<open>-\<close> and \<open>|\<close> and the names \<open>React\<close>
  and \<open>Stripe\<close>, then \<open>\s*\|\s*.*Documentation\s*$\<close> and \<open>\s*\|\s*.*Docs\s*$\<close>.
\<close>

definition en_dash :: string where
  "en_dash = [CHR 0xE2, CHR 0x80, CHR 0x93]"

definition brand :: "string \<Rightarrow> string \<Rightarrow> rx" where
  "brand sep name =
     cat [Star WhiteSpace, lit sep, Star WhiteSpace, lit name, Star WhiteSpace, EndText]"

definition brand_any :: "string \<Rightarrow> rx" where
  "brand_any name =
     cat [Star WhiteSpace, lit ''|'', Star WhiteSpace, Star Dot, lit name, Star WhiteSpace,
          EndText]"

definition brandingPatterns :: "rx list" where
  "brandingPatterns =
     [brand en_dash ''React'', brand ''-'' ''React'', brand ''|'' ''React'',
      brand en_dash ''Stripe'', brand ''-'' ''Stripe'', brand ''|'' ''Stripe'',
      brand_any ''Documentation'', brand_any ''Docs'']"



subsection \<open>Retry with backoff\<close>

text \<open>\<open>time.Duration\<close> is an \<open>int64\<close> count of nanoseconds.\<close>

definition DefaultMaxRetries :: int where
  "DefaultMaxRetries = 3"

definition DefaultBackoffBase :: "64 word" where
  "DefaultBackoffBase = 1000000000"

definition MaxBackoffDelay :: "64 word" where
  "MaxBackoffDelay = 30000000000"

text \<open>
  \<open>time.Duration(math.Pow(2, float64(i)))\<close> for \<open>i \<ge> 0\<close>. The power of two is exact in
  \<open>float64\<close>, and the conversion to \<open>int64\<close> is exact while the value is below \<open>2^63\<close>. From
  \<open>i = 63\<close> on Go leaves the result of the conversion to the platform: \<open>conv\<close>.
\<close>

definition pow2_Duration :: "(int \<Rightarrow> 64 word) \<Rightarrow> int \<Rightarrow> 64 word" where
  "pow2_Duration conv i = (if i < 63 then 2 ^ nat i else conv i)"

text \<open>
  The backoff before the retry that follows the failed attempt \<open>i\<close>: the product wraps in
  \<open>int64\<close>, and the comparison with the cap is the signed one.
\<close>

definition backoff :: "(int \<Rightarrow> 64 word) \<Rightarrow> int \<Rightarrow> 64 word" where
  "backoff conv i =
     (let b = pow2_Duration conv i * DefaultBackoffBase
      in if MaxBackoffDelay <s b then MaxBackoffDelay else b)"

text \<open>
  What a run of \<open>visitWithRetry\<close> does to the outside: calls of \<open>collector.Visit\<close> and
  calls of \<open>time.Sleep\<close> with their argument. (The log lines are left out.)
\<close>

datatype event = Attempt | Sleep "64 word"

text \<open>\<open>fmt.Errorf("failed after %d retries: %w", maxRetries, lastErr)\<close>\<close>

datatype 'e retry_error = FailedAfter int "'e option"

text \<open>
  \<open>visitWithRetry\<close>. \<open>Visit\<close> is the collaborator \<open>collector.Visit\<close>: from its state \<open>w\<close>
  and the URL it gives the error, if any, and its next state. The loop counter stays
  between 0 and \<open>maxRetries\<close>, so it does not overflow.
\<close>

function visit_loop ::
  "('w \<Rightarrow> string \<Rightarrow> 'e option \<times> 'w) \<Rightarrow> (int \<Rightarrow> 64 word) \<Rightarrow> string \<Rightarrow> int \<Rightarrow> int \<Rightarrow>
   'e option \<Rightarrow> event list \<Rightarrow> 'w \<Rightarrow> 'e retry_error option \<times> event list \<times> 'w" where
  "visit_loop Visit conv url maxRetries i lastErr tr w =
     (if i < maxRetries then
        (case Visit w url of
           (Some err, w') \<Rightarrow>
             visit_loop Visit conv url maxRetries (i + 1) (Some err)
               (tr @ Attempt # (if i < maxRetries - 1 then [Sleep (backoff conv i)] else [])) w'
         | (None, w') \<Rightarrow> (None, tr @ [Attempt], w'))
      else (Some (FailedAfter maxRetries lastErr), tr, w))"
  by pat_completeness auto
termination
  by (relation "measure (\<lambda>(Visit, conv, url, maxRetries, i, lastErr, tr, w). nat (maxRetries - i))")
    auto

declare visit_loop.simps [simp del]

definition visitWithRetry ::
  "('w \<Rightarrow> string \<Rightarrow> 'e option \<times> 'w) \<Rightarrow> (int \<Rightarrow> 64 word) \<Rightarrow> string \<Rightarrow> int \<Rightarrow> 'w \<Rightarrow>
   'e retry_error option \<times> event list \<times> 'w" where
  "visitWithRetry Visit conv url maxRetries w = visit_loop Visit conv url maxRetries 0 None [] w"

text \<open>
  A collaborator that plays a script: its state is the list of the results still to come
  (\<open>Some err\<close> for a failure); when the script is over it succeeds.
\<close>

definition scripted :: "'e option list \<Rightarrow> string \<Rightarrow> 'e option \<times> 'e option list" where
  "scripted w url = (case w of [] \<Rightarrow> (None, []) | r # rs \<Rightarrow> (r, rs))"

section \<open>internal/converter\<close>

text \<open>
  A \<open>bluemonday.Policy\<close> as the list of what has been allowed on it: elements, and
  attributes on elements as pairs (attribute, element). The library's \<open>UGCPolicy()\<close>, with
  which \<open>createSanitizer\<close> starts, is a parameter.
\<close>

record Policy =
  allowedElements :: "string list"
  allowedAttrs :: "(string \<times> string) list"

definition AllowElements :: "string list \<Rightarrow> Policy \<Rightarrow> Policy" where
  "AllowElements names p = p\<lparr>allowedElements := allowedElements p @ names\<rparr>"

definition AllowAttrsOnElements :: "string list \<Rightarrow> string list \<Rightarrow> Policy \<Rightarrow> Policy" where
  \<comment> \<open>\<open>p.AllowAttrs(attrs...).OnElements(elements...)\<close>\<close>
  "AllowAttrsOnElements as es p =
     p\<lparr>allowedAttrs := allowedAttrs p @ concat (map (\<lambda>a. map (\<lambda>e. (a, e)) es) as)\<rparr>"

text \<open>The fields of \<open>config.Output\<close> that \<open>createSanitizer\<close> reads.\<close>

record OutputConfig =
  PreserveImages :: bool
  InlineStyles :: bool

definition createSanitizer :: "OutputConfig \<Rightarrow> Policy \<Rightarrow> Policy" where
  "createSanitizer cfg UGCPolicy =
     (let p = UGCPolicy;
          p = AllowElements [''pre'', ''code'', ''blockquote'', ''h1'', ''h2'', ''h3'', ''h4'',
                             ''h5'', ''h6''] p;
          p = AllowElements [''table'', ''thead'', ''tbody'', ''tr'', ''th'', ''td''] p;
          p = AllowElements [''ul'', ''ol'', ''li'', ''dl'', ''dt'', ''dd''] p;
          p = AllowElements [''p'', ''br'', ''hr'', ''div'', ''span''] p;
          p = AllowElements [''strong'', ''b'', ''em'', ''i'', ''u'', ''s'', ''del'', ''ins''] p;
          p = AllowAttrsOnElements [''href'', ''title''] [''a''] (AllowElements [''a''] p);
          p = (if PreserveImages cfg
               then AllowAttrsOnElements [''src'', ''alt'', ''title'', ''width'', ''height'']
                      [''img''] (AllowElements [''img''] p)
               else p);
          p = AllowAttrsOnElements [''class''] [''pre'', ''code''] p;
          p = (if \<not> InlineStyles cfg then AllowAttrsOnElements [''style''] [''*''] p else p)
      in p)"

text \<open>A policy on which nothing has been allowed.\<close>

definition empty_policy :: Policy where
  "empty_policy = \<lparr>allowedElements = [], allowedAttrs = []\<rparr>"

text \<open>
  A value for the table parameter in examples: the strings of the examples are ASCII, so
  the tables are never consulted there.
\<close>

definition no_tables :: unicode where
  "no_tables = \<lparr>lower_map = (\<lambda>s. s), upper_rune = (\<lambda>b. [b]), fold_eq = (\<lambda>s t. s = t)\<rparr>"

section \<open>Reference functions for the claims\<close>

text \<open>Runs of hyphens collapsed to one hyphen, in a single pass.\<close>

fun squeeze_dashes :: "string \<Rightarrow> string" where
  "squeeze_dashes [] = []"
| "squeeze_dashes [c] = [c]"
| "squeeze_dashes (c # d # s) =
     (if c = CHR ''-'' \<and> d = CHR ''-'' then squeeze_dashes (d # s)
      else c # squeeze_dashes (d # s))"

text \<open>The title derived from one part of a URL.\<close>

definition title_of :: "unicode \<Rightarrow> string \<Rightarrow> string" where
  "title_of U part =
     titleCase U (map (\<lambda>c. if c = CHR ''-'' \<or> c = CHR ''_'' then CHR '' '' else c) part)"








text \<open>
  The failures at the head of a script, among the first \<open>n\<close> results.
\<close>

definition failures :: "int \<Rightarrow> 'e option list \<Rightarrow> 'e option list" where
  "failures n rs = takeWhile (\<lambda>r. r \<noteq> None) (take (nat n) rs)"

text \<open>The least number of bytes that a match of a tree takes.\<close>

fun min_len :: "rx \<Rightarrow> nat" where
  "min_len (Sym a) = 1"
| "min_len (Star a) = 0"
| "min_len (LazyStar a) = 0"
| "min_len EndText = 0"
| "min_len Epsilon = 0"
| "min_len (Cat r1 r2) = min_len r1 + min_len r2"
| "min_len (Either r1 r2) = min (min_len r1) (min_len r2)"




section \<open>Evaluating bytes\<close>

lemma char_of_numeral [simp]:
  "char_of (numeral k :: nat) =
     Char (bit (numeral k :: nat) 0) (bit (numeral k :: nat) 1) (bit (numeral k :: nat) 2)
          (bit (numeral k :: nat) 3) (bit (numeral k :: nat) 4) (bit (numeral k :: nat) 5)
          (bit (numeral k :: nat) 6) (bit (numeral k :: nat) 7)"
  by (simp add: char_of_def)

lemma bit_one_0 [simp]: "bit (Suc 0) 0"
  by (simp add: bit_Suc_0_iff)

section \<open>Content-hash deduplication\<close>

lemma call_hash_tuple: "call_hash sha (u, t, k, d, n) = sha k"
  by (simp add: call_hash_def)

lemma add_calls_snoc:
  "add_calls sha cfg (cs @ [c]) = add_call sha (add_calls sha cfg cs) c"
  by (simp add: add_calls_def)

lemma add_calls_hashes:
  "map_index (contentHashes (add_calls sha cfg cs)) h \<longleftrightarrow> h \<in> call_hash sha ` set cs"
proof (induction cs rule: rev_induct)
  case Nil
  show ?case by (simp add: add_calls_def New_def map_index_def)
next
  case (snoc c cs)
  obtain u t k d n where c: "c = (u, t, k, d, n)" by (cases c) auto
  show ?case
    using snoc.IH
    by (auto simp: add_calls_snoc add_call_def c AddPage_def Let_def call_hash_tuple
        map_index_def split: option.splits)
qed

lemma add_calls_page_hashes:
  "sha ` Content ` set (pages (add_calls sha cfg cs)) = call_hash sha ` set cs"
proof (induction cs rule: rev_induct)
  case Nil
  show ?case by (simp add: add_calls_def New_def)
next
  case (snoc c cs)
  obtain u t k d n where c: "c = (u, t, k, d, n)" by (cases c) auto
  have h: "map_index (contentHashes (add_calls sha cfg cs)) (sha k) \<longleftrightarrow>
      sha k \<in> call_hash sha ` set cs" by (rule add_calls_hashes)
  show ?case
  proof (cases "sha k \<in> call_hash sha ` set cs")
    case True
    have "add_calls sha cfg (cs @ [c]) = add_calls sha cfg cs"
      using True h by (simp add: add_calls_snoc add_call_def c AddPage_def Let_def)
    with True snoc.IH show ?thesis
      by (auto simp: c call_hash_tuple)
  next
    case False
    have "pages (add_calls sha cfg (cs @ [c])) = pages (add_calls sha cfg cs) @
        [\<lparr>URL = u, Title = t, Content = k, Depth = d, Timestamp = n\<rparr>]"
      using False h by (simp add: add_calls_snoc add_call_def c AddPage_def Let_def)
    with snoc.IH show ?thesis
      by (simp add: c call_hash_tuple image_Un)
  qed
qed

lemma add_calls_distinct:
  "distinct (map (\<lambda>p. sha (Content p)) (pages (add_calls sha cfg cs)))"
proof (induction cs rule: rev_induct)
  case Nil
  show ?case by (simp add: add_calls_def New_def)
next
  case (snoc c cs)
  obtain u t k d n where c: "c = (u, t, k, d, n)" by (cases c) auto
  have h: "map_index (contentHashes (add_calls sha cfg cs)) (sha k) \<longleftrightarrow>
      sha k \<in> call_hash sha ` set cs" by (rule add_calls_hashes)
  have p: "sha ` Content ` set (pages (add_calls sha cfg cs)) = call_hash sha ` set cs"
    by (rule add_calls_page_hashes)
  show ?case
  proof (cases "sha k \<in> call_hash sha ` set cs")
    case True
    with h snoc.IH show ?thesis
      by (simp add: add_calls_snoc add_call_def c AddPage_def Let_def)
  next
    case False
    with p have "sha k \<notin> sha ` Content ` set (pages (add_calls sha cfg cs))" by simp
    with False h snoc.IH show ?thesis
      by (auto simp: add_calls_snoc add_call_def c AddPage_def Let_def image_image)
  qed
qed

text \<open>
  C1. After any sequence \<open>cs\<close> of \<open>AddPage\<close> calls on a fresh aggregator the retained pages
  have pairwise distinct content hashes. A further call whose content hash was presented by
  an earlier call leaves the whole aggregator unchanged, whatever its url, title and depth;
  a call presenting a new hash appends exactly one page, built from its arguments, behind
  the pages already retained. \<open>sha\<close> is any function, so colliding contents are covered.
\<close>

theorem AddPage_first_writer_wins:
  "distinct (map (\<lambda>p. sha (Content p)) (pages (add_calls sha cfg cs))) \<and>
   (if sha content \<in> call_hash sha ` set cs
    then AddPage sha now (add_calls sha cfg cs) url title content depth = add_calls sha cfg cs
    else pages (AddPage sha now (add_calls sha cfg cs) url title content depth) =
         pages (add_calls sha cfg cs) @
         [\<lparr>URL = url, Title = title, Content = content, Depth = depth, Timestamp = now\<rparr>])"
proof -
  have h: "map_index (contentHashes (add_calls sha cfg cs)) (sha content) \<longleftrightarrow>
      sha content \<in> call_hash sha ` set cs" by (rule add_calls_hashes)
  show ?thesis
    using h by (simp add: add_calls_distinct AddPage_def Let_def)
qed

section \<open>Anchor slugs\<close>

lemma ReplaceAll_byte_byte:
  "strings_ReplaceAll s [a] [b] = map (\<lambda>c. if c = a then b else c) s"
  by (induction s) auto

lemma ReplaceAll_byte_empty: "strings_ReplaceAll s [a] [] = filter (\<lambda>c. c \<noteq> a) s"
  by (induction s) auto

lemma foldl_ReplaceAll_filter:
  "foldl (\<lambda>a c. strings_ReplaceAll a [c] []) s cs = filter (\<lambda>c. c \<notin> set cs) s"
proof (induction cs arbitrary: s)
  case Nil
  show ?case by simp
next
  case (Cons x cs)
  have "foldl (\<lambda>a c. strings_ReplaceAll a [c] []) s (x # cs) =
      foldl (\<lambda>a c. strings_ReplaceAll a [c] []) (strings_ReplaceAll s [x] []) cs" by simp
  also have "\<dots> = filter (\<lambda>c. c \<notin> set cs) (strings_ReplaceAll s [x] [])" by (rule Cons.IH)
  also have "\<dots> = filter (\<lambda>c. c \<notin> set (x # cs)) s"
    by (simp only: ReplaceAll_byte_empty filter_filter) (simp add: conj_commute)
  finally show ?case .
qed

lemma Contains_sublist: "strings_Contains s sub \<longleftrightarrow> sublist sub s"
proof (induction s)
  case Nil
  show ?case by simp
next
  case (Cons c s)
  show ?case by (simp add: Cons.IH sublist_Cons_right)
qed

lemma squeeze_hd: "\<exists>r. squeeze_dashes (d # s) = d # r"
proof (induction s arbitrary: d)
  case Nil
  show ?case by simp
next
  case (Cons e s)
  from Cons [of e] obtain r where "squeeze_dashes (e # s) = e # r" by blast
  then show ?case by auto
qed

lemma squeeze_no_double: "\<not> sublist ''--'' (squeeze_dashes s)"
proof (induction s rule: squeeze_dashes.induct)
  case 1
  show ?case by simp
next
  case (2 c)
  show ?case by (simp add: sublist_Cons_right)
next
  case (3 c d s)
  obtain r where r: "squeeze_dashes (d # s) = d # r" using squeeze_hd by blast
  show ?case
  proof (cases "c = CHR ''-'' \<and> d = CHR ''-''")
    case True
    with 3 show ?thesis by simp
  next
    case False
    with 3 have "\<not> sublist ''--'' (d # r)" by (simp add: r)
    with False show ?thesis by (auto simp: r sublist_Cons_right)
  qed
qed

lemma squeeze_id: "\<not> sublist ''--'' s \<Longrightarrow> squeeze_dashes s = s"
  by (induction s rule: squeeze_dashes.induct) (auto simp: sublist_Cons_right)

lemma squeeze_dash_Cons:
  "squeeze_dashes (CHR ''-'' # t) = CHR ''-'' # dropWhile (\<lambda>c. c = CHR ''-'') (squeeze_dashes t)"
proof (cases t)
  case Nil
  then show ?thesis by simp
next
  case (Cons d s)
  obtain r where r: "squeeze_dashes (d # s) = d # r" using squeeze_hd by blast
  show ?thesis
  proof (cases "d = CHR ''-''")
    case True
    have "\<not> sublist ''--'' (d # r)" using squeeze_no_double [of "d # s"] by (simp add: r)
    then have "dropWhile (\<lambda>c. c = CHR ''-'') r = r"
      using True by (cases r) (auto simp: sublist_Cons_right)
    with True r show ?thesis by (simp add: Cons)
  next
    case False
    then show ?thesis by (simp add: Cons r)
  qed
qed

lemma squeeze_ReplaceAll:
  "squeeze_dashes (strings_ReplaceAll s ''--'' ''-'') = squeeze_dashes s"
proof (induction "length s" arbitrary: s rule: less_induct)
  case less
  show ?case
  proof (cases s)
    case Nil
    then show ?thesis by simp
  next
    case (Cons c t)
    show ?thesis
    proof (cases "c = CHR ''-''")
      case nc: False
      have sq: "squeeze_dashes (c # u) = c # squeeze_dashes u" for u
        using nc by (cases u) auto
      have "squeeze_dashes (strings_ReplaceAll t ''--'' ''-'') = squeeze_dashes t"
        using less [of t] Cons by simp
      with nc show ?thesis by (simp add: Cons sq)
    next
      case c: True
      show ?thesis
      proof (cases t)
        case Nil
        with c Cons show ?thesis by simp
      next
        case t: (Cons d r)
        show ?thesis
        proof (cases "d = CHR ''-''")
          case True
          have IH: "squeeze_dashes (strings_ReplaceAll r ''--'' ''-'') = squeeze_dashes r"
            using less [of r] Cons t by simp
          have "squeeze_dashes (strings_ReplaceAll s ''--'' ''-'') =
              squeeze_dashes (CHR ''-'' # strings_ReplaceAll r ''--'' ''-'')"
            using c True by (simp add: Cons t)
          also have "\<dots> = squeeze_dashes (CHR ''-'' # r)"
            by (simp only: squeeze_dash_Cons IH)
          also have "\<dots> = squeeze_dashes s" using c True by (simp add: Cons t)
          finally show ?thesis .
        next
          case False
          have IH: "squeeze_dashes (strings_ReplaceAll t ''--'' ''-'') = squeeze_dashes t"
            using less [of t] Cons by simp
          have "squeeze_dashes (strings_ReplaceAll s ''--'' ''-'') =
              squeeze_dashes (CHR ''-'' # strings_ReplaceAll t ''--'' ''-'')"
            using c False by (simp add: Cons t)
          also have "\<dots> = squeeze_dashes (CHR ''-'' # t)"
            by (simp only: squeeze_dash_Cons IH)
          also have "\<dots> = squeeze_dashes s" using c by (simp add: Cons)
          finally show ?thesis .
        qed
      qed
    qed
  qed
qed

lemma collapse_dashes_squeeze: "collapse_dashes s = squeeze_dashes s"
proof (induction s rule: collapse_dashes.induct)
  case (1 anchor)
  show ?case
  proof (cases "strings_Contains anchor ''--''")
    case True
    with 1 have "collapse_dashes (strings_ReplaceAll anchor ''--'' ''-'') =
        squeeze_dashes (strings_ReplaceAll anchor ''--'' ''-'')" by simp
    with True show ?thesis
      by (subst collapse_dashes.simps) (simp add: squeeze_ReplaceAll)
  next
    case False
    then show ?thesis
      by (subst collapse_dashes.simps) (simp add: squeeze_id Contains_sublist)
  qed
qed

lemma Trim_sublist: "sublist (strings_Trim s cs) s"
proof -
  let ?P = "\<lambda>c. c \<in> set cs"
  let ?t = "dropWhile ?P s"
  have "sublist (rev (dropWhile ?P (rev ?t))) (rev (rev ?t))"
    by (subst sublist_rev) (rule suffix_imp_sublist, rule suffix_dropWhile)
  moreover have "sublist ?t s" by (rule suffix_imp_sublist, rule suffix_dropWhile)
  ultimately show ?thesis
    by (auto simp: strings_Trim_def intro: sublist_order.order_trans)
qed

lemma Trim_no_leading: "\<not> prefix [c] (strings_Trim s [c])"
proof
  let ?P = "\<lambda>x. x \<in> set [c]"
  let ?t = "dropWhile ?P s"
  assume "prefix [c] (strings_Trim s [c])"
  then obtain r where r: "rev (dropWhile ?P (rev ?t)) = c # r"
    by (auto simp: strings_Trim_def prefix_def)
  have "?t = rev (dropWhile ?P (rev ?t)) @ rev (takeWhile ?P (rev ?t))"
    by (metis rev_append rev_rev_ident takeWhile_dropWhile_id)
  with r have "hd ?t = c" "?t \<noteq> []" by (metis append_Cons list.sel(1), metis append_Cons list.distinct(1))
  moreover have "?t \<noteq> [] \<Longrightarrow> \<not> ?P (hd ?t)" by (rule hd_dropWhile)
  ultimately show False by simp
qed

lemma Trim_no_trailing: "\<not> suffix [c] (strings_Trim s [c])"
proof
  let ?P = "\<lambda>x. x \<in> set [c]"
  let ?t = "dropWhile ?P s"
  assume "suffix [c] (strings_Trim s [c])"
  then obtain r where "rev (dropWhile ?P (rev ?t)) = r @ [c]"
    by (auto simp: strings_Trim_def suffix_def)
  then have "dropWhile ?P (rev ?t) = c # rev r" by (metis rev_eq_Cons_iff rev_rev_ident)
  then have "hd (dropWhile ?P (rev ?t)) = c" "dropWhile ?P (rev ?t) \<noteq> []" by auto
  moreover have "dropWhile ?P (rev ?t) \<noteq> [] \<Longrightarrow> \<not> ?P (hd (dropWhile ?P (rev ?t)))"
    by (rule hd_dropWhile)
  ultimately show False by simp
qed


lemma createAnchor_unfold:
  "createAnchor U title =
     strings_Trim (squeeze_dashes (filter (\<lambda>c. c \<notin> set anchor_removed)
       (map (\<lambda>c. if c = CHR '' '' then CHR ''-'' else c) (strings_ToLower U title)))) ''-''"
  by (simp add: createAnchor_def Let_def ReplaceAll_byte_byte foldl_ReplaceAll_filter
      collapse_dashes_squeeze)

lemma createAnchor_no_double: "\<not> strings_Contains (createAnchor U title) ''--''"
proof
  assume "strings_Contains (createAnchor U title) ''--''"
  then have "sublist ''--'' (createAnchor U title)" by (simp only: Contains_sublist)
  then have "sublist ''--'' (squeeze_dashes (filter (\<lambda>c. c \<notin> set anchor_removed)
       (map (\<lambda>c. if c = CHR '' '' then CHR ''-'' else c) (strings_ToLower U title))))"
    unfolding createAnchor_unfold using Trim_sublist sublist_order.order_trans by blast
  then show False using squeeze_no_double by blast
qed

lemma set_squeeze: "set (squeeze_dashes s) \<subseteq> set s"
  by (induction s rule: squeeze_dashes.induct) auto

lemma createAnchor_chars:
  "list_all (\<lambda>c. c \<notin> set anchor_removed \<and> c \<noteq> CHR '' '') (createAnchor U title)"
proof -
  let ?m = "map (\<lambda>c. if c = CHR '' '' then CHR ''-'' else c) (strings_ToLower U title)"
  let ?f = "filter (\<lambda>c. c \<notin> set anchor_removed) ?m"
  have "set (createAnchor U title) \<subseteq> set (squeeze_dashes ?f)"
    unfolding createAnchor_unfold using Trim_sublist set_mono_sublist by blast
  also have "\<dots> \<subseteq> set ?f" by (rule set_squeeze)
  finally have "set (createAnchor U title) \<subseteq> set ?f" .
  moreover have "\<forall>c \<in> set ?f. c \<notin> set anchor_removed \<and> c \<noteq> CHR '' ''" by auto
  ultimately show ?thesis unfolding list_all_iff by blast
qed

text \<open>
  C8 (amended). For every title, \<open>createAnchor\<close> returns the title lower-cased by
  \<open>strings.ToLower\<close>, with every space turned into a hyphen, the 28 characters
  \<open>. ( ) / \ : ; ? ! @ # $ % ^ & * + = [ ] { } | " ' < > ,\<close> deleted, every run of hyphens
  collapsed to one hyphen and the hyphens at both ends trimmed. The result holds none of
  the 28 characters and no space, does not contain \<open>--\<close> and neither starts nor ends with
  a hyphen; \<open>createAnchor("What is React? (A Guide)")\<close> is \<open>what-is-react-a-guide\<close>.
\<close>

theorem createAnchor_slug:
  "createAnchor U title =
     strings_Trim (squeeze_dashes (filter (\<lambda>c. c \<notin> set anchor_removed)
       (map (\<lambda>c. if c = CHR '' '' then CHR ''-'' else c) (strings_ToLower U title)))) ''-'' \<and>
   list_all (\<lambda>c. c \<notin> set anchor_removed \<and> c \<noteq> CHR '' '') (createAnchor U title) \<and>
   \<not> strings_Contains (createAnchor U title) ''--'' \<and>
   \<not> prefix ''-'' (createAnchor U title) \<and>
   \<not> suffix ''-'' (createAnchor U title) \<and>
   createAnchor U ''What is React? (A Guide)'' = ''what-is-react-a-guide''"
proof -
  have "\<not> prefix ''-'' (createAnchor U title)" "\<not> suffix ''-'' (createAnchor U title)"
    unfolding createAnchor_unfold by (rule Trim_no_leading, rule Trim_no_trailing)
  moreover have "createAnchor U ''What is React? (A Guide)'' = ''what-is-react-a-guide''"
    by (simp add: createAnchor_def strings_ToLower_def is_ascii_def ascii_lower_def
        anchor_removed_def collapse_dashes.simps strings_Trim_def)
  ultimately show ?thesis
    using createAnchor_unfold createAnchor_no_double createAnchor_chars by blast
qed

text \<open>
  C8 as stated fails: the underscore, the tilde and the backquote are punctuation and are
  not among the deleted characters, so they stay in the slug.
\<close>

theorem createAnchor_keeps_punctuation:
  "createAnchor no_tables ''a_b~c`d'' = ''a_b~c`d''"
  by (simp add: createAnchor_def strings_ToLower_def is_ascii_def ascii_lower_def
      anchor_removed_def collapse_dashes.simps strings_Trim_def)


section \<open>Titles from URLs\<close>

lemma split_byte_nosep: "sep \<notin> set t \<Longrightarrow> split_byte cur sep t = [cur @ t]"
  by (induction t arbitrary: cur) auto

lemma split_byte_append:
  "sep \<notin> set t \<Longrightarrow> split_byte cur sep (s @ sep # t) = split_byte cur sep s @ [t]"
  by (induction s arbitrary: cur) (auto simp: split_byte_nosep)

lemma split_byte_not_Nil: "split_byte cur sep s \<noteq> []"
  by (induction s arbitrary: cur) auto

lemma Split_last_part:
  assumes "CHR ''/'' \<notin> set t" and "s = [] \<or> last s = CHR ''/''"
  shows "\<exists>ps. strings_Split (s @ t) CHR ''/'' = ps @ [t]"
proof (cases "s = []")
  case True
  with assms show ?thesis by (simp add: strings_Split_def split_byte_nosep)
next
  case False
  with assms obtain s' where "s = s' @ [CHR ''/'']" by (metis append_butlast_last_id)
  with assms show ?thesis by (simp add: strings_Split_def split_byte_append)
qed

lemma replace_separators:
  "strings_ReplaceAll (strings_ReplaceAll part ''-'' '' '') ''_'' '' '' =
     map (\<lambda>c. if c = CHR ''-'' \<or> c = CHR ''_'' then CHR '' '' else c) part"
  by (simp add: ReplaceAll_byte_byte)


lemma extractTitle_parts_prev:
  assumes "strings_Split url CHR ''/'' = ps @ [t, []]"
  shows "extractTitleFromURL U url = (if t \<noteq> [] then title_of U t else ''Untitled'')"
proof -
  have "(ps @ [t, []]) ! (length ps) = t" by (simp add: nth_append)
  moreover have "(ps @ [t, []]) ! Suc (length ps) = []" by (simp add: nth_append)
  ultimately show ?thesis
    using assms by (simp add: extractTitleFromURL_def Let_def replace_separators title_of_def)
qed


lemma extractTitle_before_slash:
  assumes "CHR ''/'' \<notin> set t" and "s = [] \<or> last s = CHR ''/''"
  shows "extractTitleFromURL U (s @ t @ ''/'') =
      (if t \<noteq> [] then title_of U t else ''Untitled'')"
proof -
  from Split_last_part [OF assms]
  obtain ps where ps: "strings_Split (s @ t) CHR ''/'' = ps @ [t]" by blast
  have "strings_Split (s @ t @ ''/'') CHR ''/'' = split_byte [] CHR ''/'' ((s @ t) @ CHR ''/'' # [])"
    by (simp add: strings_Split_def)
  also have "\<dots> = split_byte [] CHR ''/'' (s @ t) @ [[]]"
    by (rule split_byte_append) simp
  finally have "strings_Split (s @ t @ ''/'') CHR ''/'' = ps @ [t, []]"
    using ps by (simp add: strings_Split_def)
  then show ?thesis by (rule extractTitle_parts_prev)
qed



lemma extractTitle_slash: "extractTitleFromURL U ''/'' = ''Untitled''"
  using extractTitle_before_slash [of "[]" "[]" U] by simp

section \<open>The rendered document\<close>


























section \<open>Domain admission\<close>





section \<open>Link filter\<close>

lemma find_match_suffix: "ends r s2 \<noteq> [] \<Longrightarrow> find_match r pre (s1 @ s2) \<noteq> None"
proof (induction s1 arbitrary: pre)
  case Nil
  then show ?case by (cases s2) (auto split: list.splits)
next
  case (Cons c s1)
  then show ?case by (auto split: list.splits)
qed

lemma ends_lit: "ends (lit k) (k @ rest) = [rest]"
proof (induction k)
  case Nil
  show ?case by (simp add: lit_def)
next
  case (Cons c k)
  have "lit (c # k) = Cat (Sym (if is_letter c then Fold c else Byte c)) (lit k)"
    by (simp add: lit_def)
  then show ?case using Cons by simp
qed

lemma concat_ends_Epsilon: "concat (map (ends Epsilon) xs) = xs"
  by (induction xs) auto

lemma ends_skip:
  assumes "tail = [] \<or> hd tail \<in> set ''/?#''"
  shows "ends (cat [lit ''/'', lit kw, Either EndText (Sym (OneOf ''/?#''))]) (''/'' @ kw @ tail) \<noteq> []"
proof -
  have 1: "ends (lit ''/'') (''/'' @ kw @ tail) = [kw @ tail]" by (rule ends_lit)
  have 2: "ends (lit kw) (kw @ tail) = [tail]" by (rule ends_lit)
  have 3: "ends (Either EndText (Sym (OneOf ''/?#''))) tail \<noteq> []"
    using assms by (cases tail) auto
  have "ends (cat [lit ''/'', lit kw, Either EndText (Sym (OneOf ''/?#''))]) (''/'' @ kw @ tail) =
      ends (Either EndText (Sym (OneOf ''/?#''))) tail"
    unfolding cat_def using 1 2 by (simp add: concat_ends_Epsilon del: ends.simps(1,4))
  with 3 show ?thesis by simp
qed

lemma skip_compiles:
  assumes "kw \<in> set skipPatterns" and "kw \<noteq> ''blog(?!/)''"
  shows "compile_skip kw = Some (cat [lit ''/'', lit kw, Either EndText (Sym (OneOf ''/?#''))])"
proof -
  have "list_all (\<lambda>p. p = ''blog(?!/)'' \<or> list_all (\<lambda>c. is_letter c \<or> is_digit c) p)
      skipPatterns"
    by code_simp
  with assms have "list_all (\<lambda>c. is_letter c \<or> is_digit c) kw"
    unfolding list_all_iff by blast
  then show ?thesis by (simp add: compile_skip_def)
qed

lemma skip_keyword_matches:
  assumes "kw \<in> set skipPatterns" and "kw \<noteq> ''blog(?!/)''"
    and "tail = [] \<or> hd tail \<in> set ''/?#''"
  shows "isPrivacyOrLegalURL (pre @ ''/'' @ kw @ tail)"
proof -
  have "compile_skip kw = Some (cat [lit ''/'', lit kw, Either EndText (Sym (OneOf ''/?#''))])"
    using assms(1,2) by (rule skip_compiles)
  moreover have "MatchString (cat [lit ''/'', lit kw, Either EndText (Sym (OneOf ''/?#''))])
      (pre @ ''/'' @ kw @ tail)"
    unfolding MatchString_def using ends_skip [OF assms(3)] by (rule find_match_suffix)
  ultimately have "regexp_MatchString kw (pre @ ''/'' @ kw @ tail)"
    by (simp add: regexp_MatchString_def)
  with assms(1) show ?thesis unfolding isPrivacyOrLegalURL_def list_ex_iff by blast
qed

text \<open>
  C5. A URL that the built-in heuristic \<open>isPrivacyOrLegalURL\<close> matches is rejected by
  \<open>shouldFollow\<close>, whatever the follow and ignore patterns are. The heuristic matches every
  URL that holds one of its keywords (all of \<open>skipPatterns\<close> but the entry for blog) behind
  a slash and before the end of the URL or one of \<open>/ ? #\<close>.
\<close>

theorem shouldFollow_heuristic_first:
  "(isPrivacyOrLegalURL urlStr \<longrightarrow> shouldFollow ignorePatterns followPatterns urlStr = False) \<and>
   (kw \<in> set skipPatterns \<and> kw \<noteq> ''blog(?!/)'' \<and> (tail = [] \<or> hd tail \<in> set ''/?#'') \<longrightarrow>
      isPrivacyOrLegalURL (pre @ ''/'' @ kw @ tail) \<and>
      shouldFollow ignorePatterns followPatterns (pre @ ''/'' @ kw @ tail) = False)"
  using skip_keyword_matches [of kw tail pre] by (auto simp: shouldFollow_def)

theorem shouldFollow_heuristic_first_witness:
  "isPrivacyOrLegalURL ''https://example.com/privacy'' \<and>
   list_ex (\<lambda>re. re ''https://example.com/privacy'') [\<lambda>u. True] \<and>
   shouldFollow [] [\<lambda>u. True] ''https://example.com/privacy'' = False \<and>
   shouldFollow [\<lambda>u. False] [\<lambda>u. True] ''https://example.com/login?next=1'' = False"
proof -
  have "''privacy'' \<in> set skipPatterns" "''login'' \<in> set skipPatterns"
    by (simp_all add: skipPatterns_def)
  then show ?thesis
    using shouldFollow_heuristic_first [of "''https://example.com/privacy''" "[]" "[\<lambda>u. True]"
        "''privacy''" "[]" "''https://example.com''"]
      shouldFollow_heuristic_first [of "''https://example.com/login?next=1''" "[\<lambda>u. False]"
        "[\<lambda>u. True]" "''login''" "''?next=1''" "''https://example.com''"]
    by simp
qed

lemma blog_never_matches: "regexp_MatchString ''blog(?!/)'' urlStr = False"
  by (simp add: regexp_MatchString_def compile_skip_def is_letter_def is_digit_def)

lemma blog_not_compiled: "compile_skip ''blog(?!/)'' = None"
  by (simp add: compile_skip_def is_letter_def is_digit_def)

lemma blog_not_matched: "isPrivacyOrLegalURL ''https://example.com/blog'' = False"
  by code_simp

lemma blogging_guide_not_matched:
  "isPrivacyOrLegalURL ''https://example.com/blogging-guide'' = False"
  by code_simp

text \<open>
  C6 fails on the code. The entry \<open>blog(?!/)\<close> of \<open>skipPatterns\<close> does not compile, the error
  is dropped, and so the entry matches no URL: \<open>https://example.com/blog\<close> is not matched by
  the heuristic. (\<open>https://example.com/blogging-guide\<close> is not matched either, as claimed.)
\<close>

theorem isPrivacyOrLegalURL_blog:
  "compile_skip ''blog(?!/)'' = None \<and>
   regexp_MatchString ''blog(?!/)'' urlStr = False \<and>
   isPrivacyOrLegalURL ''https://example.com/blog'' = False \<and>
   isPrivacyOrLegalURL ''https://example.com/blogging-guide'' = False"
  using blog_never_matches blog_not_compiled blog_not_matched blogging_guide_not_matched
  by simp

section \<open>Title cleanup\<close>

lemma runs_length: "e \<in> set (runs a s) \<Longrightarrow> length e \<le> length s"
proof (induction a s rule: runs.induct)
  case (1 a s)
  show ?case
  proof (cases "atom_match a s")
    case None
    with 1(2) show ?thesis by (subst (asm) runs.simps) simp
  next
    case (Some r)
    from 1(2) have "e = s \<or> e \<in> set (runs a r)"
      by (subst (asm) runs.simps) (simp add: Some)
    then show ?thesis
      using 1(1) [OF Some] atom_match_shorter [OF Some] by auto
  qed
qed

lemma ends_length: "e \<in> set (ends r s) \<Longrightarrow> length e + min_len r \<le> length s"
proof (induction r arbitrary: s e)
  case (Sym a)
  then have "atom_match a s = Some e" by (auto split: option.splits)
  then have "length e < length s" by (rule atom_match_shorter)
  then show ?case by simp
next
  case (Star a)
  then show ?case using runs_length by auto
next
  case (LazyStar a)
  then show ?case using runs_length by auto
next
  case EndText
  then show ?case by (auto split: if_splits)
next
  case Epsilon
  then show ?case by simp
next
  case (Cat r1 r2)
  from Cat.prems obtain m where "m \<in> set (ends r1 s)" "e \<in> set (ends r2 m)" by auto
  then have "length m + min_len r1 \<le> length s" "length e + min_len r2 \<le> length m"
    using Cat.IH by blast+
  then show ?case by simp
next
  case (Either r1 r2)
  then show ?case by fastforce
qed

lemma find_match_length:
  "find_match r pre s = Some (p, e) \<Longrightarrow> length e + min_len r \<le> length s"
proof (induction s arbitrary: pre)
  case Nil
  then have "e \<in> set (ends r [])" by (auto split: list.splits)
  then show ?case by (rule ends_length)
next
  case (Cons c s)
  show ?case
  proof (cases "ends r (c # s)")
    case Nil
    with Cons.prems have "find_match r (pre @ [c]) s = Some (p, e)" by simp
    then have "length e + min_len r \<le> length s" by (rule Cons.IH)
    then show ?thesis by simp
  next
    case (Cons x xs)
    with Cons.prems have "e \<in> set (ends r (c # s))" by auto
    then show ?thesis by (rule ends_length)
  qed
qed

lemma min_len_lit: "min_len (lit s) = length s"
  by (induction s) (simp_all add: lit_def)

lemma min_len_patterns: "re \<in> set (statusPatterns @ brandingPatterns) \<Longrightarrow> 0 < min_len re"
  by (auto simp: statusPatterns_def brandingPatterns_def brand_def brand_any_def cat_def
      min_len_lit en_dash_def)

lemma ReplaceAllString_cut:
  assumes "re \<in> set (statusPatterns @ brandingPatterns)"
  shows "ReplaceAllString re src =
     (case find_match re [] src of
        None \<Rightarrow> src
      | Some (pre, rest) \<Rightarrow> pre @ ReplaceAllString re rest)"
proof (cases "find_match re [] src")
  case None
  then show ?thesis by (subst ReplaceAllString.simps) simp
next
  case (Some m)
  obtain pre rest where m: "m = (pre, rest)" by (cases m)
  have "length rest + min_len re \<le> length src"
    using Some unfolding m by (rule find_match_length)
  with min_len_patterns [OF assms] have "length rest < length src" by simp
  with Some m show ?thesis by (subst ReplaceAllString.simps) simp
qed








section \<open>Retry with backoff\<close>



lemma backoff_small:
  assumes "0 \<le> i" and "i \<le> 33"
  shows "sint (backoff conv i) = min (2 ^ nat i * 1000000000) 30000000000"
proof -
  have "i \<in> set [0..33]" using assms by simp
  then have "i \<in> {0, 1, 2, 3, 4, 5, 6, 7, 8, 9, 10, 11, 12, 13, 14, 15, 16, 17, 18, 19, 20,
      21, 22, 23, 24, 25, 26, 27, 28, 29, 30, 31, 32, 33}"
    by (simp add: upto.simps)
  then show ?thesis
    by (elim insertE emptyE)
      (simp_all add: backoff_def pow2_Duration_def DefaultBackoffBase_def MaxBackoffDelay_def
        word_sless_alt Let_def)
qed

lemma visit_loop_sleeps:
  "set (fst (snd (visit_loop Visit conv url n i lastErr tr w))) \<subseteq>
     set tr \<union> {Attempt} \<union> {Sleep (backoff conv j) | j. i \<le> j \<and> j < n - 1}"
proof (induction Visit conv url n i lastErr tr w rule: visit_loop.induct)
  case (1 Visit conv url n i lastErr tr w)
  show ?case
  proof (cases "i < n")
    case False
    then show ?thesis by (subst visit_loop.simps) auto
  next
    case True
    obtain r w' where v: "Visit w url = (r, w')" by (cases "Visit w url")
    show ?thesis
    proof (cases r)
      case None
      with True v show ?thesis by (subst visit_loop.simps) auto
    next
      case (Some err)
      have "set (fst (snd (visit_loop Visit conv url n (i + 1) (Some err)
               (tr @ Attempt # (if i < n - 1 then [Sleep (backoff conv i)] else [])) w')))
          \<subseteq> set (tr @ Attempt # (if i < n - 1 then [Sleep (backoff conv i)] else [])) \<union>
            {Attempt} \<union> {Sleep (backoff conv j) | j. i + 1 \<le> j \<and> j < n - 1}"
        using 1 [OF True v [symmetric] Some] by simp 
      also have "\<dots> \<subseteq> set tr \<union> {Attempt} \<union> {Sleep (backoff conv j) | j. i \<le> j \<and> j < n - 1}"
        by auto
      finally show ?thesis
        using True v Some by (subst visit_loop.simps) auto
    qed
  qed
qed

lemma visit_loop_attempts:
  "length (filter (\<lambda>x. x = Attempt) (fst (snd (visit_loop Visit conv url n i lastErr tr w)))) \<le>
     length (filter (\<lambda>x. x = Attempt) tr) + nat (n - i)"
proof (induction Visit conv url n i lastErr tr w rule: visit_loop.induct)
  case (1 Visit conv url n i lastErr tr w)
  show ?case
  proof (cases "i < n")
    case False
    then show ?thesis by (subst visit_loop.simps) simp
  next
    case True
    obtain r w' where v: "Visit w url = (r, w')" by (cases "Visit w url")
    show ?thesis
    proof (cases r)
      case None
      with True v show ?thesis by (subst visit_loop.simps) simp
    next
      case (Some err)
      have "length (filter (\<lambda>x. x = Attempt) (fst (snd (visit_loop Visit conv url n (i + 1) (Some err)
               (tr @ Attempt # (if i < n - 1 then [Sleep (backoff conv i)] else [])) w'))))
          \<le> length (filter (\<lambda>x. x = Attempt) (tr @ Attempt # (if i < n - 1 then [Sleep (backoff conv i)] else []))) + nat (n - (i + 1))"
        using 1 [OF True v [symmetric] Some] by simp 
      also have "\<dots> \<le> length (filter (\<lambda>x. x = Attempt) tr) + nat (n - i)"
        using True by auto
      finally show ?thesis
        using True v Some by (subst visit_loop.simps) simp
    qed
  qed
qed

lemma visit_loop_scripted:
  assumes "m = nat (n - i)" and "0 < m"
  shows "visit_loop scripted conv url n i lastErr tr rs =
     (let fs = failures (n - i) rs; k = length fs in
      (if k < m then None else Some (FailedAfter n (last fs)),
       tr @ concat (map (\<lambda>j. [Attempt, Sleep (backoff conv (i + int j))]) [0..<min k (m - 1)]) @
         [Attempt],
       drop (if k < m then Suc k else k) rs))"
  using assms
proof (induction m arbitrary: i lastErr tr rs)
  case 0
  then show ?case by simp
next
  case (Suc m)
  then have lt: "i < n" by simp
  show ?case
  proof (cases rs)
    case Nil
    with lt show ?thesis
      by (subst visit_loop.simps) (simp add: scripted_def failures_def)
  next
    case (Cons r rs')
    show ?thesis
    proof (cases r)
      case None
      with lt Cons Suc.prems show ?thesis
        by (subst visit_loop.simps) (simp add: scripted_def failures_def take_Cons')
    next
      case (Some err)
      have fs: "failures (n - i) rs = Some err # failures (n - (i + 1)) rs'"
        using lt Cons Some
      proof -
        have "nat (n - i) = Suc (nat (n - (i + 1)))" using lt by simp
        then show ?thesis using Cons Some by (simp add: failures_def)
      qed
      show ?thesis
      proof (cases "m = 0")
        case True
        then have last: "\<not> i < n - 1" "\<not> i + 1 < n" using Suc.prems by simp_all
        have "failures (n - (i + 1)) rs' = []" using last by (simp add: failures_def)
        with last lt Cons Some True fs show ?thesis
          by (subst visit_loop.simps, subst visit_loop.simps) (simp add: scripted_def)
      next
        case False
        then have m: "m = nat (n - (i + 1))" "0 < m" and more: "i < n - 1"
          using Suc.prems by simp_all
        let ?k = "length (failures (n - (i + 1)) rs')"
        have up: "[0..<min (Suc ?k) m] = 0 # map Suc [0..<min ?k (m - 1)]"
          using m(2) by (cases m) (simp_all add: upt_conv_Cons map_Suc_upt del: upt_Suc)
        have lastfs: "?k \<ge> m \<Longrightarrow> last (Some err # failures (n - (i + 1)) rs') =
            last (failures (n - (i + 1)) rs')"
          using m(2) by (cases "failures (n - (i + 1)) rs'") auto
        have step: "visit_loop scripted conv url n i lastErr tr rs =
            visit_loop scripted conv url n (i + 1) (Some err)
              (tr @ [Attempt, Sleep (backoff conv i)]) rs'"
          using lt more Cons Some by (subst visit_loop.simps) (simp add: scripted_def)
        have sh: "(\<lambda>j. [Attempt, Sleep (backoff conv (i + 1 + int j))]) =
            (\<lambda>j. [Attempt, Sleep (backoff conv (i + int j))]) \<circ> Suc"
          by (auto simp: fun_eq_iff add.commute add.left_commute)
        show ?thesis
          unfolding step Suc.IH [OF m] fs Let_def sh
          using lastfs
          by (simp add: up Cons del: upt_Suc)
      qed
    qed
  qed
qed

lemma visitWithRetry_scripted:
  assumes "1 \<le> n"
  shows "visitWithRetry scripted conv url n rs =
     (let fs = failures n rs; k = length fs in
      (if k < nat n then None else Some (FailedAfter n (last fs)),
       concat (map (\<lambda>j. [Attempt, Sleep (backoff conv (int j))]) [0..<min k (nat n - 1)]) @
         [Attempt],
       drop (if k < nat n then Suc k else k) rs))"
proof -
  have "nat n = nat (n - 0)" "0 < nat n" using assms by simp_all
  from visit_loop_scripted [OF this, of conv url None "[]" rs]
  show ?thesis by (simp add: visitWithRetry_def)
qed

text \<open>
  What holds of the claim. Against a collaborator that plays a script, let \<open>k\<close> be the
  number of failures at the head of the script among its first \<open>maxRetries\<close> results. The
  run succeeds exactly when \<open>k < maxRetries\<close>, it makes \<open>k + 1\<close> attempts then and
  \<open>maxRetries\<close> attempts otherwise, it sleeps \<open>backoff j\<close> behind the failed attempt \<open>j\<close>
  unless that was the last attempt allowed, and the error it returns wraps the last failure
  (\<open>visitWithRetry_scripted\<close>). With at most 35 retries every sleep is
  \<open>min(1s * 2^j, 30s)\<close> (\<open>backoff_small\<close>, \<open>visitWithRetry_within_range\<close>).
\<close>

lemma visitWithRetry_within_range:
  assumes "n \<le> 35"
  shows "length (filter (\<lambda>x. x = Attempt) (fst (snd (visitWithRetry Visit conv url n w)))) \<le> nat n \<and>
    (\<forall>d. Sleep d \<in> set (fst (snd (visitWithRetry Visit conv url n w))) \<longrightarrow>
       (\<exists>j. 0 \<le> j \<and> j < n - 1 \<and> sint d = min (2 ^ nat j * 1000000000) 30000000000))"
proof -
  have "length (filter (\<lambda>x. x = Attempt) (fst (snd (visitWithRetry Visit conv url n w)))) \<le> nat n"
    using visit_loop_attempts [of Visit conv url n 0 None "[]" w]
    by (simp add: visitWithRetry_def)
  moreover have "\<exists>j. 0 \<le> j \<and> j < n - 1 \<and> sint d = min (2 ^ nat j * 1000000000) 30000000000"
    if "Sleep d \<in> set (fst (snd (visitWithRetry Visit conv url n w)))" for d
  proof -
    from that visit_loop_sleeps [of Visit conv url n 0 None "[]" w]
    obtain j where j: "0 \<le> j" "j < n - 1" "d = backoff conv j"
      by (auto simp: visitWithRetry_def)
    with assms have "j \<le> 33" by simp
    with j(1) have "sint (backoff conv j) = min (2 ^ nat j * 1000000000) 30000000000"
      by (rule backoff_small)
    with j show ?thesis by blast
  qed
  ultimately show ?thesis by blast
qed

lemma visitWithRetry_three:
  "visitWithRetry scripted conv url 3 [Some e1, Some e2, None] =
     (None, [Attempt, Sleep 1000000000, Attempt, Sleep 2000000000, Attempt], [])"
  "visitWithRetry scripted conv url 3 [Some e1, Some e2, Some e3, Some e4] =
     (Some (FailedAfter 3 (Some e3)),
      [Attempt, Sleep 1000000000, Attempt, Sleep 2000000000, Attempt], [Some e4])"
  "visitWithRetry scripted conv url 3 [None, Some e2] = (None, [Attempt], [Some e2])"
  by (simp_all add: visitWithRetry_def visit_loop.simps scripted_def backoff_def
      pow2_Duration_def DefaultBackoffBase_def MaxBackoffDelay_def word_sless_alt Let_def)


section \<open>Sanitizer policy\<close>

lemma createSanitizer_attrs:
  "allowedAttrs (createSanitizer cfg ugc) =
     allowedAttrs ugc @ [(''href'', ''a''), (''title'', ''a'')] @
     (if PreserveImages cfg
      then [(''src'', ''img''), (''alt'', ''img''), (''title'', ''img''), (''width'', ''img''),
            (''height'', ''img'')]
      else []) @
     [(''class'', ''pre''), (''class'', ''code'')] @
     (if InlineStyles cfg then [] else [(''style'', ''*'')])"
  by (simp add: createSanitizer_def AllowElements_def AllowAttrsOnElements_def Let_def)

text \<open>
  C9 fails on the code. \<open>createSanitizer\<close> adds to the library's base policy the rule for
  \<open>img\<close> and its attributes exactly when \<open>PreserveImages\<close> is set, as claimed, but the rule
  for the \<open>style\<close> attribute exactly when \<open>InlineStyles\<close> is not set: with the option on,
  nothing allows \<open>style\<close>; with it off, the rule is there.
\<close>

theorem createSanitizer_style_inverted:
  "allowedAttrs (createSanitizer cfg ugc) =
     allowedAttrs ugc @ [(''href'', ''a''), (''title'', ''a'')] @
     (if PreserveImages cfg
      then [(''src'', ''img''), (''alt'', ''img''), (''title'', ''img''), (''width'', ''img''),
            (''height'', ''img'')]
      else []) @
     [(''class'', ''pre''), (''class'', ''code'')] @
     (if InlineStyles cfg then [] else [(''style'', ''*'')]) \<and>
   list_all (\<lambda>(a, e). a \<noteq> ''style'')
     (allowedAttrs (createSanitizer \<lparr>PreserveImages = True, InlineStyles = True\<rparr> empty_policy)) \<and>
   (''style'', ''*'') \<in> set
     (allowedAttrs (createSanitizer \<lparr>PreserveImages = False, InlineStyles = False\<rparr> empty_policy))"
  by (simp add: createSanitizer_attrs empty_policy_def)

end
